theory Spec2Isabelle
  imports Complex_Main
begin

section \<open>Smart AI traffic management: a shallow embedding of smart_traffic_ai.py\<close>

text \<open>
  Numbers of the program (times, rates, Q-values) are modelled as mathematical reals, queue
  lengths and indices as naturals, rewards as integers. The sums of times that drive the
  loops of \<^verbatim>\<open>run\<close> take Python's addition as a parameter, exact for integers and rounding
  for floats; the other arithmetic is exact. A vehicle is a value: the program
  creates one \<^verbatim>\<open>Vehicle\<close> object per arrival and keeps it in exactly one place (a lane
  queue, then the list of departed vehicles), so stamping the object on removal is the same
  as returning the stamped value.
\<close>

subsection \<open>Python exceptions\<close>

datatype error = ValueError | TypeError | AttributeError | ZeroDivisionError | IndexError

subsection \<open>Vehicle and Lane\<close>

record vehicle =
  arrival_time :: real
  depart_time :: "real option"

definition Vehicle :: "real \<Rightarrow> vehicle" where
  "Vehicle a = \<lparr>arrival_time = a, depart_time = None\<rparr>"

record 'v lane =
  queue :: "'v list"

definition Lane :: "'v lane" where
  "Lane = \<lparr>queue = []\<rparr>"

definition lane_add_vehicle :: "'v lane \<Rightarrow> 'v \<Rightarrow> 'v lane" where
  "lane_add_vehicle l v = l\<lparr>queue := queue l @ [v]\<rparr>"

text \<open>\<^verbatim>\<open>remove_vehicle\<close> returns \<^verbatim>\<open>None\<close> on an empty queue, otherwise the head, stamped.\<close>

definition remove_vehicle ::
  "'a vehicle_scheme lane \<Rightarrow> real \<Rightarrow> 'a vehicle_scheme option \<times> 'a vehicle_scheme lane" where
  "remove_vehicle l t =
     (case queue l of
        [] \<Rightarrow> (None, l)
      | v # vs \<Rightarrow> (Some (v\<lparr>depart_time := Some t\<rparr>), l\<lparr>queue := vs\<rparr>))"

definition qlen :: "'v lane \<Rightarrow> nat" where
  "qlen l = length (queue l)"

text \<open>A sequence of calls on one lane, and what each \<^verbatim>\<open>remove_vehicle\<close> call returned.\<close>

datatype 'v lane_call = Add 'v | Remove real

fun lane_calls ::
  "'a vehicle_scheme lane_call list \<Rightarrow> 'a vehicle_scheme lane \<Rightarrow>
   (real \<times> 'a vehicle_scheme option) list \<times> 'a vehicle_scheme lane" where
  "lane_calls [] l = ([], l)"
| "lane_calls (Add v # cs) l = lane_calls cs (lane_add_vehicle l v)"
| "lane_calls (Remove t # cs) l =
     (case remove_vehicle l t of
        (r, l') \<Rightarrow> (case lane_calls cs l' of (rs, l'') \<Rightarrow> ((t, r) # rs, l'')))"

fun added :: "'v lane_call list \<Rightarrow> 'v list" where
  "added [] = []"
| "added (Add v # cs) = v # added cs"
| "added (Remove t # cs) = added cs"

fun returned :: "(real \<times> 'v option) list \<Rightarrow> (real \<times> 'v) list" where
  "returned [] = []"
| "returned ((t, None) # rs) = returned rs"
| "returned ((t, Some v) # rs) = (t, v) # returned rs"

subsection \<open>Intersection\<close>

text \<open>
  The directions are the four keys \<^verbatim>\<open>"N"\<close>, \<^verbatim>\<open>"S"\<close>, \<^verbatim>\<open>"E"\<close>, \<^verbatim>\<open>"W"\<close> of the dictionary
  \<^verbatim>\<open>self.lanes\<close>, which never changes its key set. The phase stays a string: \<^verbatim>\<open>serve\<close> compares
  it with \<^verbatim>\<open>"NS"\<close> and treats every other value as the east-west phase.
\<close>

datatype direction = N | S | E | W

record intersection =
  lanes :: "direction \<Rightarrow> vehicle lane"
  service_rate :: real

definition Intersection :: "real \<Rightarrow> intersection" where
  "Intersection sr = \<lparr>lanes = (\<lambda>d. Lane), service_rate = sr\<rparr>"

definition add_vehicle :: "intersection \<Rightarrow> direction \<Rightarrow> vehicle \<Rightarrow> intersection" where
  "add_vehicle isec d v = isec\<lparr>lanes := (lanes isec)(d := lane_add_vehicle (lanes isec d) v)\<rparr>"

definition queue_lengths :: "intersection \<Rightarrow> direction \<Rightarrow> nat" where
  "queue_lengths isec = (\<lambda>d. qlen (lanes isec d))"

text \<open>
  Python's \<^verbatim>\<open>max(xs, key=f)\<close>: \<^verbatim>\<open>ValueError\<close> on an empty sequence; otherwise the
  running maximum is replaced only by an item whose key is strictly greater, so the first
  item with the greatest key wins.
\<close>

fun py_max_key :: "('a \<Rightarrow> 'k::linorder) \<Rightarrow> 'a list \<Rightarrow> error + 'a" where
  "py_max_key key [] = Inl ValueError"
| "py_max_key key (x # xs) = Inr (foldl (\<lambda>m y. if key m < key y then y else m) x xs)"

text \<open>Python's \<^verbatim>\<open>int(x)\<close> on a float truncates towards zero.\<close>

definition py_int :: "real \<Rightarrow> int" where
  "py_int x = (if 0 \<le> x then \<lfloor>x\<rfloor> else \<lceil>x\<rceil>)"

text \<open>
  The body of \<^verbatim>\<open>for _ in range(cap)\<close> in \<^verbatim>\<open>serve\<close>; the first argument is the number of
  iterations left.
\<close>

fun serve_loop ::
  "nat \<Rightarrow> direction list \<Rightarrow> real \<Rightarrow> (direction \<Rightarrow> vehicle lane) \<Rightarrow> vehicle option list \<Rightarrow>
   error + (vehicle option list \<times> (direction \<Rightarrow> vehicle lane))" where
  "serve_loop 0 dirs t ls passed = Inr (passed, ls)"
| "serve_loop (Suc n) dirs t ls passed =
     (case py_max_key (\<lambda>d. qlen (ls d)) dirs of
        Inl e \<Rightarrow> Inl e
      | Inr best \<Rightarrow>
          if qlen (ls best) = 0 then Inr (passed, ls)
          else (case remove_vehicle (ls best) t of
                  (v, l') \<Rightarrow> serve_loop n dirs t (ls(best := l')) (passed @ [v])))"

definition serve ::
  "intersection \<Rightarrow> string \<Rightarrow> real \<Rightarrow> real \<Rightarrow> error + (vehicle option list \<times> intersection)" where
  "serve isec phase dt t =
     (let dirs = (if phase = ''NS'' then [N, S] else [E, W]);
          cap = py_int (service_rate isec * dt)
      in case serve_loop (nat cap) dirs t (lanes isec) [] of
           Inl e \<Rightarrow> Inl e
         | Inr (passed, ls) \<Rightarrow> Inr (passed, isec\<lparr>lanes := ls\<rparr>))"

text \<open>
  The service rule in the words of the specification, for comparison with \<open>serve_loop\<close>:
  repeat up to capacity times; pick, of the two active directions, the one with the strictly
  greater queue length, the first one on a tie; stop when the chosen lane is empty; otherwise
  remove its head and stamp it with the time of the call.
\<close>

definition spec_pick :: "direction \<Rightarrow> direction \<Rightarrow> (direction \<Rightarrow> vehicle lane) \<Rightarrow> direction" where
  "spec_pick d1 d2 ls = (if length (queue (ls d1)) < length (queue (ls d2)) then d2 else d1)"

fun spec_serve_loop ::
  "nat \<Rightarrow> direction \<Rightarrow> direction \<Rightarrow> real \<Rightarrow> (direction \<Rightarrow> vehicle lane) \<Rightarrow> vehicle list \<Rightarrow>
   vehicle list \<times> (direction \<Rightarrow> vehicle lane)" where
  "spec_serve_loop 0 d1 d2 t ls out = (out, ls)"
| "spec_serve_loop (Suc n) d1 d2 t ls out =
     (let c = spec_pick d1 d2 ls in
      case queue (ls c) of
        [] \<Rightarrow> (out, ls)
      | v # vs \<Rightarrow>
          spec_serve_loop n d1 d2 t (ls(c := (ls c)\<lparr>queue := vs\<rparr>))
            (out @ [v\<lparr>depart_time := Some t\<rparr>]))"

definition active :: "string \<Rightarrow> direction \<times> direction" where
  "active phase = (if phase = ''NS'' then (N, S) else (E, W))"

subsection \<open>Sensor\<close>

text \<open>
  \<^verbatim>\<open>disc\<close> walks \<^verbatim>\<open>enumerate(self.bins)\<close> and returns the index of the first edge with
  \<^verbatim>\<open>v <= b\<close>, or \<^verbatim>\<open>len(self.bins)\<close> when the loop finds none.
\<close>

definition disc :: "'a::linorder list \<Rightarrow> 'a \<Rightarrow> nat" where
  "disc edges v =
     (case find (\<lambda>(i, b). v \<le> b) (enumerate 0 edges) of
        Some (i, b) \<Rightarrow> i
      | None \<Rightarrow> length edges)"

definition default_bins :: "int list" where
  "default_bins = [0, 3, 6, 10, 20]"

record sensor =
  bins :: "int list"

definition Sensor :: sensor where
  "Sensor = \<lparr>bins = default_bins\<rparr>"

type_synonym state = "nat \<times> nat \<times> int"

definition read :: "sensor \<Rightarrow> intersection \<Rightarrow> state" where
  "read sen isec =
     (let ql = queue_lengths isec;
          ns = int (ql N) + int (ql S);
          ew = int (ql E) + int (ql W);
          diff = (if ns - ew > 3 then 1 else if ew - ns > 3 then - 1 else 0)
      in (disc (bins sen) ns, disc (bins sen) ew, diff))"

subsection \<open>The random source\<close>

text \<open>
  The program draws from Python's module-level generator through two calls only,
  \<^verbatim>\<open>random.random()\<close> and \<^verbatim>\<open>random.randrange(n)\<close>. The hidden generator state is a value
  of an arbitrary type \<open>'g\<close>, threaded through every call; the two library functions are
  parameters. \<^verbatim>\<open>randrange(n)\<close> raises \<^verbatim>\<open>ValueError\<close> for \<open>n = 0\<close>.
\<close>

record 'g random_source =
  random_random :: "'g \<Rightarrow> real \<times> 'g"
  random_randrange :: "nat \<Rightarrow> 'g \<Rightarrow> nat \<times> 'g"

definition py_randrange :: "'g random_source \<Rightarrow> nat \<Rightarrow> 'g \<Rightarrow> error + (nat \<times> 'g)" where
  "py_randrange R n g = (if n = 0 then Inl ValueError else Inr (random_randrange R n g))"


subsection \<open>TrafficGenerator\<close>

record traffic_generator =
  rates :: "(direction \<times> real) list"

text \<open>
  The sampling loop \<^verbatim>\<open>while True: p *= random.random(); if p <= L: break; k += 1\<close>.
  It returns \<open>None\<close> when it never leaves the loop.
\<close>

partial_function (option) poisson ::
  "'g random_source \<Rightarrow> real \<Rightarrow> nat \<Rightarrow> real \<Rightarrow> 'g \<Rightarrow> (nat \<times> 'g) option" where
  "poisson R L k p g =
     (case random_random R g of
        (u, g') \<Rightarrow> if p * u \<le> L then Some (k, g') else poisson R L (k + 1) (p * u) g')"

text \<open>
  \<^verbatim>\<open>generate\<close> walks the dictionary \<^verbatim>\<open>rates\<close> in insertion order (an association list with
  distinct keys) and returns the arrival count of each direction, in the same order.
\<close>

fun generate_loop ::
  "'g random_source \<Rightarrow> (direction \<times> real) list \<Rightarrow> real \<Rightarrow> 'g \<Rightarrow>
   ((direction \<times> nat) list \<times> 'g) option" where
  "generate_loop R [] dt g = Some ([], g)"
| "generate_loop R ((d, rate) # rs) dt g =
     (case poisson R (exp (- (rate * dt))) 0 1 g of
        None \<Rightarrow> None
      | Some (k, g1) \<Rightarrow>
          (case generate_loop R rs dt g1 of
             None \<Rightarrow> None
           | Some (arrivals, g2) \<Rightarrow> Some ((d, k) # arrivals, g2)))"

definition generate ::
  "'g random_source \<Rightarrow> traffic_generator \<Rightarrow> real \<Rightarrow> real \<Rightarrow> 'g \<Rightarrow>
   ((direction \<times> nat) list \<times> 'g) option" where
  "generate R gen dt t g = generate_loop R (rates gen) dt g"

subsection \<open>QLearning\<close>

text \<open>
  The Q-table is a \<^verbatim>\<open>defaultdict(float)\<close>: reading a missing key returns \<open>0.0\<close> and inserts
  the key with that value. \<open>dd_get\<close> is one read, \<open>dd_gets\<close> a sequence of reads, and
  \<open>q_value\<close> the value that a read yields.
\<close>

definition dd_get :: "('k \<rightharpoonup> real) \<Rightarrow> 'k \<Rightarrow> real \<times> ('k \<rightharpoonup> real)" where
  "dd_get tab k = (case tab k of None \<Rightarrow> (0, tab(k \<mapsto> 0)) | Some v \<Rightarrow> (v, tab))"

fun dd_gets :: "('k \<rightharpoonup> real) \<Rightarrow> 'k list \<Rightarrow> real list \<times> ('k \<rightharpoonup> real)" where
  "dd_gets tab [] = ([], tab)"
| "dd_gets tab (k # ks) =
     (case dd_get tab k of
        (v, tab') \<Rightarrow> (case dd_gets tab' ks of (vs, tab'') \<Rightarrow> (v # vs, tab'')))"

definition q_value :: "('k \<rightharpoonup> real) \<Rightarrow> 'k \<Rightarrow> real" where
  "q_value tab k = fst (dd_get tab k)"

text \<open>
  The fields \<open>alpha\<close>, \<open>gamma\<close> and \<open>epsilon\<close> are \<^verbatim>\<open>self.\<alpha>\<close>, \<^verbatim>\<open>self.\<gamma>\<close> and \<^verbatim>\<open>self.\<epsilon>\<close>. An
  action index is a natural number, as \<^verbatim>\<open>range(len(self.actions))\<close> produces it.
\<close>

record 's qlearning =
  actions :: "(string \<times> real) list"
  alpha :: real
  gamma :: real
  epsilon :: real
  q :: "('s \<times> nat) \<rightharpoonup> real"

definition QLearning :: "(string \<times> real) list \<Rightarrow> real \<Rightarrow> real \<Rightarrow> real \<Rightarrow> 's qlearning" where
  "QLearning acts a0 g0 e0 = \<lparr>actions = acts, alpha = a0, gamma = g0, epsilon = e0, q = Map.empty\<rparr>"

text \<open>
  \<^verbatim>\<open>choose\<close> (named \<open>choose_action\<close> here, since \<open>choose\<close> is the binomial coefficient of
  the library): one draw decides between exploring and exploiting. The greedy branch evaluates
  the key \<^verbatim>\<open>self.q[(s,a)]\<close> once for every index of \<^verbatim>\<open>range(len(self.actions))\<close>, in order,
  and \<^verbatim>\<open>max\<close> picks among the indices by these keys.
\<close>

definition choose_action ::
  "'g random_source \<Rightarrow> 's qlearning \<Rightarrow> 's \<Rightarrow> 'g \<Rightarrow> error + (nat \<times> 's qlearning \<times> 'g)" where
  "choose_action R ctrl s g =
     (case random_random R g of
        (u, g1) \<Rightarrow>
          if u < epsilon ctrl then
            (case py_randrange R (length (actions ctrl)) g1 of
               Inl e \<Rightarrow> Inl e
             | Inr (a, g2) \<Rightarrow> Inr (a, ctrl, g2))
          else
            (case py_max_key (\<lambda>a. fst (dd_gets (q ctrl)
                      (map (\<lambda>a. (s, a)) [0..<length (actions ctrl)])) ! a)
                    [0..<length (actions ctrl)] of
               Inl e \<Rightarrow> Inl e
             | Inr a \<Rightarrow>
                 Inr (a, ctrl\<lparr>q := snd (dd_gets (q ctrl)
                        (map (\<lambda>a. (s, a)) [0..<length (actions ctrl)]))\<rparr>, g1)))"

definition update ::
  "'s qlearning \<Rightarrow> 's \<Rightarrow> nat \<Rightarrow> real \<Rightarrow> 's \<Rightarrow> error + 's qlearning" where
  "update ctrl s a r ns =
     (case dd_get (q ctrl) (s, a) of
        (cur, tab1) \<Rightarrow>
          (case dd_gets tab1 (map (\<lambda>na. (ns, na)) [0..<length (actions ctrl)]) of
             (vals, tab2) \<Rightarrow>
               (case py_max_key (\<lambda>x. x) vals of
                  Inl e \<Rightarrow> Inl e
                | Inr best \<Rightarrow>
                    Inr (ctrl\<lparr>q := tab2((s, a) \<mapsto>
                           cur + alpha ctrl * (r + gamma ctrl * best - cur))\<rparr>))))"

subsection \<open>Simulation\<close>

text \<open>
  The fields of \<^verbatim>\<open>Simulation\<close> carry the prefix \<open>sim_\<close>: \<^verbatim>\<open>self.gen\<close>, \<^verbatim>\<open>self.inter\<close>,
  \<^verbatim>\<open>self.sensor\<close> and \<^verbatim>\<open>self.dt\<close>.
\<close>

record simulation =
  sim_gen :: traffic_generator
  sim_inter :: intersection
  sim_sensor :: sensor
  sim_dt :: real


definition reset :: "simulation \<Rightarrow> simulation" where
  "reset sim = sim\<lparr>sim_inter := Intersection (service_rate (sim_inter sim))\<rparr>"

text \<open>
  The arrivals of one call of \<^verbatim>\<open>generate\<close>: for every direction and count, that many fresh
  vehicles stamped with the micro-step time \<^verbatim>\<open>tt\<close> join the lane.
\<close>

fun add_arrivals :: "intersection \<Rightarrow> (direction \<times> nat) list \<Rightarrow> real \<Rightarrow> intersection" where
  "add_arrivals isec [] tt = isec"
| "add_arrivals isec ((d, c) # arrivals) tt =
     add_arrivals (((\<lambda>i. add_vehicle i d (Vehicle tt)) ^^ c) isec) arrivals tt"




text \<open>The loop \<^verbatim>\<open>while tt < t+dur\<close> of \<^verbatim>\<open>run\<close>; \<open>tend\<close> is \<^verbatim>\<open>t+dur\<close>.\<close>

partial_function (option) arrive ::
  "'g random_source \<Rightarrow> (real \<Rightarrow> real \<Rightarrow> real) \<Rightarrow> traffic_generator \<Rightarrow> real \<Rightarrow> real \<Rightarrow> real \<Rightarrow> intersection \<Rightarrow> 'g \<Rightarrow>
   (intersection \<times> 'g) option" where
  "arrive R tadd gen dt tend tt isec g =
     (if tt < tend then
        (case generate R gen dt tt g of
           None \<Rightarrow> None
         | Some (arrivals, g1) \<Rightarrow>
             arrive R tadd gen dt tend (tadd tt dt) (add_arrivals isec arrivals tt) g1)
      else Some (isec, g))"

text \<open>Python's \<^verbatim>\<open>xs[a]\<close> for a non-negative index.\<close>

definition py_index :: "'a list \<Rightarrow> nat \<Rightarrow> error + 'a" where
  "py_index xs a = (if a < length xs then Inr (xs ! a) else Inl IndexError)"

text \<open>
  The variables of the decision loop of \<^verbatim>\<open>run\<close>, together with the objects it mutates: the
  simulation (its intersection), the controller (its Q-table) and the random source.
\<close>

record 'g run_state =
  rs_t :: real
  rs_departed :: "vehicle option list"
  rs_total_r :: int
  rs_sim :: simulation
  rs_ctrl :: "state qlearning"
  rs_rng :: 'g

text \<open>
  One decision step, the body of \<^verbatim>\<open>while t<max_t\<close>. The outer option is \<open>None\<close> when the
  step never returns; \<open>Inl\<close> is a raised exception. The \<^verbatim>\<open>explain\<close> branch only prints and is
  left out.
\<close>

definition step ::
  "'g random_source \<Rightarrow> (real \<Rightarrow> real \<Rightarrow> real) \<Rightarrow> bool \<Rightarrow> 'g run_state \<Rightarrow>
   (error + 'g run_state) option" where
  "step R tadd train st =
     (let sim = rs_sim st; ctrl = rs_ctrl st; t = rs_t st;
          s = read (sim_sensor sim) (sim_inter sim)
      in case choose_action R ctrl s (rs_rng st) of
           Inl e \<Rightarrow> Some (Inl e)
         | Inr (a, ctrl1, g1) \<Rightarrow>
             (case py_index (actions ctrl1) a of
                Inl e \<Rightarrow> Some (Inl e)
              | Inr (phase, dur) \<Rightarrow>
                  (case arrive R tadd (sim_gen sim) (sim_dt sim) (tadd t dur) t (sim_inter sim) g1 of
                     None \<Rightarrow> None
                   | Some (isec1, g2) \<Rightarrow>
                       (case serve isec1 phase dur (tadd t dur) of
                          Inl e \<Rightarrow> Some (Inl e)
                        | Inr (left, isec2) \<Rightarrow>
                            (let reward = int (length left) * 10
                                   - int (sum_list (map (queue_lengths isec2) [N, S, E, W])) * 2;
                                 ns = read (sim_sensor sim) isec2
                             in case (if train then update ctrl1 s a (of_int reward) ns
                                      else Inr ctrl1) of
                                  Inl e \<Rightarrow> Some (Inl e)
                                | Inr ctrl2 \<Rightarrow>
                                    Some (Inr (st\<lparr>rs_t := tadd t dur,
                                      rs_departed := rs_departed st @ left,
                                      rs_total_r := rs_total_r st + reward,
                                      rs_sim := sim\<lparr>sim_inter := isec2\<rparr>,
                                      rs_ctrl := ctrl2,
                                      rs_rng := g2\<rparr>)))))))"

partial_function (option) run_loop ::
  "'g random_source \<Rightarrow> (real \<Rightarrow> real \<Rightarrow> real) \<Rightarrow> real \<Rightarrow> bool \<Rightarrow> 'g run_state \<Rightarrow>
   (error + 'g run_state) option" where
  "run_loop R tadd max_t train st =
     (if rs_t st < max_t then
        (case step R tadd train st of
           None \<Rightarrow> None
         | Some (Inl e) \<Rightarrow> Some (Inl e)
         | Some (Inr st') \<Rightarrow> run_loop R tadd max_t train st')
      else Some (Inr st))"

text \<open>
  The last two lines of \<^verbatim>\<open>run\<close>. \<open>waits\<close> is the generator
  \<^verbatim>\<open>(v.depart_time - v.arrival_time) for v in departed\<close>; \<^verbatim>\<open>/\<close> raises on a zero divisor.
\<close>

fun waits :: "vehicle option list \<Rightarrow> error + real list" where
  "waits [] = Inr []"
| "waits (None # vs) = Inl AttributeError"
| "waits (Some v # vs) =
     (case depart_time v of
        None \<Rightarrow> Inl TypeError
      | Some d \<Rightarrow> (case waits vs of Inl e \<Rightarrow> Inl e | Inr ws \<Rightarrow> Inr ((d - arrival_time v) # ws)))"

definition py_truediv :: "real \<Rightarrow> real \<Rightarrow> error + real" where
  "py_truediv a b = (if b = 0 then Inl ZeroDivisionError else Inr (a / b))"

definition avg_wait_of :: "vehicle option list \<Rightarrow> error + real" where
  "avg_wait_of ds =
     (if ds \<noteq> [] then
        (case waits ds of
           Inl e \<Rightarrow> Inl e
         | Inr ws \<Rightarrow> py_truediv (sum_list ws) (real (length ds)))
      else Inr 0)"

record result =
  departed :: nat
  avg_wait :: real
  reward :: int

text \<open>
  \<^verbatim>\<open>run\<close> returns the result record; the model returns the final loop state with it, which
  holds the final time \<^verbatim>\<open>t\<close>, the departed vehicles and the mutated objects.
\<close>

definition run ::
  "'g random_source \<Rightarrow> (real \<Rightarrow> real \<Rightarrow> real) \<Rightarrow> simulation \<Rightarrow> state qlearning \<Rightarrow> real \<Rightarrow>
   bool \<Rightarrow> 'g \<Rightarrow> (error + (result \<times> 'g run_state)) option" where
  "run R tadd sim ctrl max_t train g =
     (case run_loop R tadd max_t train
             \<lparr>rs_t = 0, rs_departed = [], rs_total_r = 0, rs_sim = sim, rs_ctrl = ctrl,
              rs_rng = g\<rparr> of
        None \<Rightarrow> None
      | Some (Inl e) \<Rightarrow> Some (Inl e)
      | Some (Inr st) \<Rightarrow>
          (case avg_wait_of (rs_departed st) of
             Inl e \<Rightarrow> Some (Inl e)
           | Inr aw \<Rightarrow>
               Some (Inr (\<lparr>departed = length (rs_departed st), avg_wait = aw,
                            reward = rs_total_r st\<rparr>, st))))"

text \<open>A small intersection used to instantiate the theorems below.\<close>

definition demo_isec :: intersection where
  "demo_isec =
     \<lparr>lanes = (\<lambda>d. Lane)
        (N := \<lparr>queue = [Vehicle 0, Vehicle 1, Vehicle 2]\<rparr>, E := \<lparr>queue = [Vehicle 1]\<rparr>),
      service_rate = 1\<rparr>"

definition demo_rng :: "nat random_source" where
  "demo_rng = \<lparr>random_random = (\<lambda>g. (1 / 2, Suc g)), random_randrange = (\<lambda>n g. (g mod n, Suc g))\<rparr>"

definition demo_ctrl :: "state qlearning" where
  "demo_ctrl = QLearning [(''NS'', 5), (''EW'', 5)] (1 / 10) (9 / 10) 0"




definition quiet_sim :: simulation where
  "quiet_sim = \<lparr>sim_gen = \<lparr>rates = [(N, 0), (E, 0)]\<rparr>, sim_inter = demo_isec, sim_sensor = Sensor,
     sim_dt = 1\<rparr>"

definition greedy_ctrl :: "state qlearning" where
  "greedy_ctrl = QLearning [(''NS'', 5)] (1 / 10) (9 / 10) 0"




section \<open>Properties\<close>

subsection \<open>Sensor discretisation\<close>

lemma find_enumerate_first:
  "i < length edges \<Longrightarrow> v \<le> edges ! i \<Longrightarrow> (\<forall>j<i. \<not> v \<le> edges ! j) \<Longrightarrow>
   find (\<lambda>(i, b). v \<le> b) (enumerate n edges) = Some (n + i, edges ! i)"
proof (induction edges arbitrary: n i)
  case Nil
  then show ?case by simp
next
  case (Cons b bs)
  show ?case
  proof (cases i)
    case 0
    with Cons.prems show ?thesis by simp
  next
    case (Suc k)
    with Cons.prems have "\<not> v \<le> b" by auto
    moreover have "find (\<lambda>(i, b). v \<le> b) (enumerate (Suc n) bs) = Some (Suc n + k, bs ! k)"
      using Cons.prems Suc by (intro Cons.IH) auto
    ultimately show ?thesis using Suc by simp
  qed
qed

lemma find_enumerate_none:
  "(\<forall>b\<in>set edges. \<not> v \<le> b) \<Longrightarrow> find (\<lambda>(i, b). v \<le> b) (enumerate n edges) = None"
  by (induction edges arbitrary: n) auto

text \<open>
  Claim C2, as amended. \<open>disc\<close> returns the index of the first bin edge that is at least the
  value, and the number of edges when the value exceeds every edge. For the default bins
  \<open>(0, 3, 6, 10, 20)\<close> this gives \<open>disc 0 = 0\<close>, \<open>disc 3 = 1\<close>, \<open>disc 4 = 2\<close>,
  \<open>disc 20 = 4\<close> and \<open>disc 21 = 5\<close>.
\<close>

theorem disc_first_edge:
  "(\<forall>i. i < length edges \<and> v \<le> edges ! i \<and> (\<forall>j<i. \<not> v \<le> edges ! j) \<longrightarrow> disc edges v = i)
   \<and> ((\<forall>b\<in>set edges. b < v) \<longrightarrow> disc edges v = length edges)
   \<and> disc default_bins 0 = 0 \<and> disc default_bins 3 = 1 \<and> disc default_bins 4 = 2
   \<and> disc default_bins 20 = 4 \<and> disc default_bins 21 = 5"
proof -
  have a: "\<forall>i. i < length edges \<and> v \<le> edges ! i \<and> (\<forall>j<i. \<not> v \<le> edges ! j) \<longrightarrow> disc edges v = i"
    by (auto simp: disc_def find_enumerate_first [where n = 0, simplified])
  have b: "(\<forall>b\<in>set edges. b < v) \<longrightarrow> disc edges v = length edges"
  proof
    assume "\<forall>b\<in>set edges. b < v"
    then have "\<forall>b\<in>set edges. \<not> v \<le> b" by auto
    then show "disc edges v = length edges"
      by (simp add: disc_def find_enumerate_none)
  qed
  have c: "disc default_bins 0 = 0" "disc default_bins 3 = 1" "disc default_bins 4 = 2"
    "disc default_bins 20 = 4" "disc default_bins 21 = 5"
    by (simp_all add: disc_def default_bins_def enumerate_eq_zip)
  from a b c show ?thesis by blast
qed

text \<open>The theorem at the default bins, for the values 7 (edge 10, index 3) and 25 (overflow).\<close>

theorem disc_first_edge_witness:
  "disc [0, 3, 6, 10, 20] (7::int) = 3 \<and> disc [0, 3, 6, 10, 20] (25::int) = 5"
proof -
  have a: "(3::nat) < length [0, 3, 6, 10, 20::int] \<and> (7::int) \<le> [0, 3, 6, 10, 20] ! 3
      \<and> (\<forall>j<3. \<not> (7::int) \<le> [0, 3, 6, 10, 20] ! j)"
    by (simp add: nth_Cons' less_Suc_eq numeral_3_eq_3)
  have b: "\<forall>b\<in>set [0, 3, 6, 10, 20::int]. b < 25" by simp
  from disc_first_edge [of "[0, 3, 6, 10, 20::int]" 7] a
  have "disc [0, 3, 6, 10, 20] (7::int) = 3" by blast
  moreover from disc_first_edge [of "[0, 3, 6, 10, 20::int]" 25] b
  have "disc [0, 3, 6, 10, 20] (25::int) = 5" by simp
  ultimately show ?thesis by simp
qed


text \<open>
  Claim C2 as the specification states it lists \<open>disc 3 = 0\<close> and \<open>disc 4 = 1\<close>. The first
  edge that is at least 3 is the edge 3 itself, at index 1, and the first edge that is at least
  4 is the edge 6, at index 2, so the listed values do not hold of the code.
\<close>

theorem disc_default_counterexample:
  "\<not> (disc default_bins 0 = 0 \<and> disc default_bins 3 = 0 \<and> disc default_bins 4 = 1
      \<and> disc default_bins 20 = 4 \<and> disc default_bins 21 = 5)"
  by (simp add: disc_def default_bins_def)

subsection \<open>Lane: first in, first out\<close>

lemma lane_calls_fifo_from:
  "lane_calls cs l = (rs, l') \<Longrightarrow>
   length (returned rs) \<le> length (queue l @ added cs)
   \<and> map snd (returned rs) =
       map2 (\<lambda>v t. v\<lparr>depart_time := Some t\<rparr>)
         (take (length (returned rs)) (queue l @ added cs)) (map fst (returned rs))
   \<and> queue l' = drop (length (returned rs)) (queue l @ added cs)"
proof (induction cs l arbitrary: rs l' rule: lane_calls.induct)
  case (1 l)
  then show ?case by simp
next
  case (2 v cs l)
  then show ?case by (simp add: lane_add_vehicle_def)
next
  case (3 t cs l)
  show ?case
  proof (cases "queue l")
    case Nil
    then have rv: "remove_vehicle l t = (None, l)" by (simp add: remove_vehicle_def)
    obtain rs0 where rs0: "lane_calls cs l = (rs0, l')" "rs = (t, None) # rs0"
      using "3.prems" rv by (auto split: prod.splits)
    from "3.IH" [OF rv [symmetric] rs0(1)] rs0(2) Nil show ?thesis by simp
  next
    case (Cons x xs)
    then have rv: "remove_vehicle l t = (Some (x\<lparr>depart_time := Some t\<rparr>), l\<lparr>queue := xs\<rparr>)"
      by (simp add: remove_vehicle_def)
    obtain rs0 where rs0: "lane_calls cs (l\<lparr>queue := xs\<rparr>) = (rs0, l')"
      "rs = (t, Some (x\<lparr>depart_time := Some t\<rparr>)) # rs0"
      using "3.prems" rv by (auto split: prod.splits)
    from "3.IH" [OF rv [symmetric] rs0(1)] rs0(2) Cons show ?thesis by simp
  qed
qed

lemma lane_calls_append:
  "lane_calls (cs1 @ cs2) l =
     (fst (lane_calls cs1 l) @ fst (lane_calls cs2 (snd (lane_calls cs1 l))),
      snd (lane_calls cs2 (snd (lane_calls cs1 l))))"
  by (induction cs1 l rule: lane_calls.induct) (auto split: prod.splits)

lemma lane_calls_remove_at:
  "fst (lane_calls (cs1 @ Remove t # cs2) l) ! length (fst (lane_calls cs1 l)) =
     (t, case drop (length (returned (fst (lane_calls cs1 l)))) (queue l @ added cs1) of
           [] \<Rightarrow> None
         | v # vs \<Rightarrow> Some (v\<lparr>depart_time := Some t\<rparr>))"
proof -
  obtain rs1 l1 where c1: "lane_calls cs1 l = (rs1, l1)" by (cases "lane_calls cs1 l")
  from lane_calls_fifo_from [OF c1]
  have q: "queue l1 = drop (length (returned rs1)) (queue l @ added cs1)" by simp
  obtain r l2 where rv: "remove_vehicle l1 t = (r, l2)" by (cases "remove_vehicle l1 t")
  then have r: "r = (case queue l1 of [] \<Rightarrow> None | v # vs \<Rightarrow> Some (v\<lparr>depart_time := Some t\<rparr>))"
    by (auto simp: remove_vehicle_def split: list.splits)
  have "fst (lane_calls (Remove t # cs2) l1) = (t, r) # fst (lane_calls cs2 l2)"
    using rv by (simp split: prod.splits)
  then have "fst (lane_calls (cs1 @ Remove t # cs2) l) = rs1 @ (t, r) # fst (lane_calls cs2 l2)"
    by (simp add: lane_calls_append c1)
  then show ?thesis using c1 r q by simp
qed

text \<open>
  Claim C6. Take a lane, holding the vehicles \<open>queue l\<close> that were added to it earlier (none
  for a fresh lane), and make any sequence of \<^verbatim>\<open>add_vehicle\<close> and \<^verbatim>\<open>remove_vehicle\<close> calls.
  Every removal returns the oldest vehicle that was added and not yet returned, stamped with
  the time argument of that removal, and returns nothing only when every vehicle added so far
  has been returned. So the vehicles that the removals returned are, in order, the first
  vehicles that were added, none skipped and none reordered, each with the time of its own
  removal; what the lane still holds is the rest of the added vehicles, in order.
\<close>

theorem lane_fifo:
  "length (returned (fst (lane_calls cs l))) \<le> length (queue l @ added cs)
   \<and> map snd (returned (fst (lane_calls cs l))) =
       map2 (\<lambda>v t. v\<lparr>depart_time := Some t\<rparr>)
         (take (length (returned (fst (lane_calls cs l)))) (queue l @ added cs))
         (map fst (returned (fst (lane_calls cs l))))
   \<and> queue (snd (lane_calls cs l)) =
       drop (length (returned (fst (lane_calls cs l)))) (queue l @ added cs)
   \<and> queue Lane = []
   \<and> (\<forall>cs1 t cs2. cs = cs1 @ Remove t # cs2 \<longrightarrow>
        fst (lane_calls cs l) ! length (fst (lane_calls cs1 l)) =
          (t, case drop (length (returned (fst (lane_calls cs1 l)))) (queue l @ added cs1) of
                [] \<Rightarrow> None
              | v # vs \<Rightarrow> Some (v\<lparr>depart_time := Some t\<rparr>)))"
  using lane_calls_fifo_from [of cs l "fst (lane_calls cs l)" "snd (lane_calls cs l)"]
    lane_calls_remove_at [of _ _ _ l]
  by (simp add: Lane_def)

text \<open>
  Two vehicles are added and three removals follow, at times 5, 6 and 7: the second removal
  returns the second vehicle stamped 6, the third returns nothing.
\<close>

theorem lane_fifo_witness:
  "fst (lane_calls [Add (Vehicle 0), Add (Vehicle 1), Remove 5, Remove 6, Remove 7] Lane) ! 1 =
     (6, Some \<lparr>arrival_time = 1, depart_time = Some 6\<rparr>)
   \<and> fst (lane_calls [Add (Vehicle 0), Add (Vehicle 1), Remove 5, Remove 6, Remove 7] Lane) ! 2 =
     (7, None)
   \<and> map snd (returned (fst (lane_calls
        [Add (Vehicle 0), Add (Vehicle 1), Remove 5, Remove 6, Remove 7] Lane))) =
     [\<lparr>arrival_time = 0, depart_time = Some 5\<rparr>, \<lparr>arrival_time = 1, depart_time = Some 6\<rparr>]"
proof -
  let ?cs = "[Add (Vehicle 0), Add (Vehicle 1), Remove 5, Remove 6, Remove 7]"
  have tr: "fst (lane_calls ?cs Lane) =
      [(5, Some \<lparr>arrival_time = 0, depart_time = Some 5\<rparr>),
       (6, Some \<lparr>arrival_time = 1, depart_time = Some 6\<rparr>), (7, None)]"
    by (simp add: Lane_def lane_add_vehicle_def remove_vehicle_def Vehicle_def)
  have s1: "?cs = [Add (Vehicle 0), Add (Vehicle 1), Remove 5] @ Remove 6 # [Remove 7]" by simp
  have s2: "?cs = [Add (Vehicle 0), Add (Vehicle 1), Remove 5, Remove 6] @ Remove 7 # []" by simp
  have p1: "fst (lane_calls [Add (Vehicle 0), Add (Vehicle 1), Remove 5] Lane) =
      [(5, Some \<lparr>arrival_time = 0, depart_time = Some 5\<rparr>)]"
    by (simp add: Lane_def lane_add_vehicle_def remove_vehicle_def Vehicle_def)
  have p2: "fst (lane_calls [Add (Vehicle 0), Add (Vehicle 1), Remove 5, Remove 6] Lane) =
      [(5, Some \<lparr>arrival_time = 0, depart_time = Some 5\<rparr>),
       (6, Some \<lparr>arrival_time = 1, depart_time = Some 6\<rparr>)]"
    by (simp add: Lane_def lane_add_vehicle_def remove_vehicle_def Vehicle_def)
  let ?p1 = "[Add (Vehicle 0), Add (Vehicle 1), Remove 5]"
  let ?p2 = "[Add (Vehicle 0), Add (Vehicle 1), Remove 5, Remove 6]"
  have l1: "length (fst (lane_calls ?p1 Lane)) = 1" unfolding p1 by simp
  have v1: "(case drop (length (returned (fst (lane_calls ?p1 Lane)))) (queue Lane @ added ?p1) of
        [] \<Rightarrow> None | v # vs \<Rightarrow> Some (v\<lparr>depart_time := Some 6\<rparr>)) =
      Some \<lparr>arrival_time = 1, depart_time = Some 6\<rparr>"
    unfolding p1 by (simp add: Lane_def Vehicle_def)
  from lane_fifo [of ?cs Lane] s1 have
    "fst (lane_calls ?cs Lane) ! length (fst (lane_calls ?p1 Lane)) =
       (6, case drop (length (returned (fst (lane_calls ?p1 Lane)))) (queue Lane @ added ?p1) of
             [] \<Rightarrow> None | v # vs \<Rightarrow> Some (v\<lparr>depart_time := Some 6\<rparr>))"
    by blast
  then have a: "fst (lane_calls ?cs Lane) ! 1 = (6, Some \<lparr>arrival_time = 1, depart_time = Some 6\<rparr>)"
    unfolding l1 v1 .
  have l2: "length (fst (lane_calls ?p2 Lane)) = 2" unfolding p2 by simp
  have v2: "(case drop (length (returned (fst (lane_calls ?p2 Lane)))) (queue Lane @ added ?p2) of
        [] \<Rightarrow> None | v # vs \<Rightarrow> Some (v\<lparr>depart_time := Some 7\<rparr>)) = None"
    unfolding p2 by (simp add: Lane_def Vehicle_def)
  from lane_fifo [of ?cs Lane] s2 have
    "fst (lane_calls ?cs Lane) ! length (fst (lane_calls ?p2 Lane)) =
       (7, case drop (length (returned (fst (lane_calls ?p2 Lane)))) (queue Lane @ added ?p2) of
             [] \<Rightarrow> None | v # vs \<Rightarrow> Some (v\<lparr>depart_time := Some 7\<rparr>))"
    by blast
  then have b: "fst (lane_calls ?cs Lane) ! 2 = (7, None)"
    unfolding l2 v2 .
  have c: "map snd (returned (fst (lane_calls ?cs Lane))) =
     [\<lparr>arrival_time = 0, depart_time = Some 5\<rparr>, \<lparr>arrival_time = 1, depart_time = Some 6\<rparr>]"
    unfolding tr by simp
  from a b c show ?thesis by blast
qed

subsection \<open>Intersection service\<close>

lemma py_max_key_two:
  "py_max_key key [d1, d2] = Inr (if key d1 < key d2 then d2 else d1)"
  by simp

lemma foldl_max_key_mem:
  "foldl (\<lambda>m y. if key m < key y then y else m) x xs \<in> set (x # xs)"
  by (induction xs arbitrary: x) (auto split: if_splits)

lemma py_max_key_mem: "py_max_key key xs = Inr b \<Longrightarrow> b \<in> set xs"
  using foldl_max_key_mem [of key] by (cases xs) auto

lemma serve_loop_frame:
  "serve_loop n dirs t ls passed = Inr (p, ls') \<Longrightarrow> d \<notin> set dirs \<Longrightarrow> ls' d = ls d"
proof (induction n arbitrary: ls passed)
  case 0
  then show ?case by simp
next
  case (Suc n)
  from Suc.prems(1) obtain best where best: "py_max_key (\<lambda>d. qlen (ls d)) dirs = Inr best"
    by (auto split: sum.splits)
  then have bd: "best \<in> set dirs" by (rule py_max_key_mem)
  with Suc.prems(2) have neq: "d \<noteq> best" by auto
  show ?case
  proof (cases "qlen (ls best) = 0")
    case True
    with Suc.prems(1) best show ?thesis by simp
  next
    case False
    obtain v l' where rv: "remove_vehicle (ls best) t = (v, l')" by (cases "remove_vehicle (ls best) t")
    with Suc.prems(1) best False
    have "serve_loop n dirs t (ls(best := l')) (passed @ [v]) = Inr (p, ls')" by simp
    from Suc.IH [OF this Suc.prems(2)] neq show ?thesis by simp
  qed
qed

lemma serve_loop_bound:
  "d1 \<noteq> d2 \<Longrightarrow>
   \<exists>p ls'. serve_loop n [d1, d2] t ls passed = Inr (p, ls')
     \<and> length p \<le> length passed + n
     \<and> length p + qlen (ls' d1) + qlen (ls' d2) = length passed + qlen (ls d1) + qlen (ls d2)"
proof (induction n arbitrary: ls passed)
  case 0
  then show ?case by simp
next
  case (Suc n)
  define best where "best = (if qlen (ls d1) < qlen (ls d2) then d2 else d1)"
  have mk: "py_max_key (\<lambda>d. qlen (ls d)) [d1, d2] = Inr best"
    by (simp add: best_def)
  show ?case
  proof (cases "qlen (ls best) = 0")
    case True
    with mk show ?thesis by simp
  next
    case False
    then obtain v vs where q: "queue (ls best) = v # vs"
      by (cases "queue (ls best)") (auto simp: qlen_def)
    then have rv: "remove_vehicle (ls best) t =
        (Some (v\<lparr>depart_time := Some t\<rparr>), (ls best)\<lparr>queue := vs\<rparr>)"
      by (simp add: remove_vehicle_def)
    let ?ls = "ls(best := (ls best)\<lparr>queue := vs\<rparr>)"
    let ?ps = "passed @ [Some (v\<lparr>depart_time := Some t\<rparr>)]"
    from Suc.IH [OF Suc.prems, of ?ls ?ps] obtain p ls' where
      r: "serve_loop n [d1, d2] t ?ls ?ps = Inr (p, ls')"
      and b: "length p \<le> length ?ps + n"
      and c: "length p + qlen (ls' d1) + qlen (ls' d2) = length ?ps + qlen (?ls d1) + qlen (?ls d2)"
      by blast
    have bb: "best = d1 \<or> best = d2" by (simp add: best_def)
    have s: "Suc (qlen (?ls d1) + qlen (?ls d2)) = qlen (ls d1) + qlen (ls d2)"
      using bb q Suc.prems by (auto simp: qlen_def)
    have "serve_loop (Suc n) [d1, d2] t ls passed = Inr (p, ls')"
      using mk False rv r by simp
    moreover have "length p \<le> length passed + Suc n" using b by simp
    moreover have "length p + qlen (ls' d1) + qlen (ls' d2)
        = length passed + qlen (ls d1) + qlen (ls d2)" using c s by simp
    ultimately show ?thesis by blast
  qed
qed

lemma nat_py_int_floor: "0 \<le> x \<Longrightarrow> int (nat (py_int x)) = \<lfloor>x\<rfloor>"
  by (simp add: py_int_def)

text \<open>
  Claim C1. With a non-negative product of service rate and duration (the specification's
  configuration: both are positive), \<^verbatim>\<open>serve\<close> returns, and the number of vehicles it returns
  is at most \<open>\<lfloor>service_rate * duration\<rfloor>\<close> and at most the sum of the queue lengths of the
  two active directions at call time.
\<close>

theorem serve_capacity_bound:
  assumes "0 \<le> service_rate isec * dt"
  shows "\<exists>passed isec'. serve isec phase dt t = Inr (passed, isec')
     \<and> int (length passed) \<le> \<lfloor>service_rate isec * dt\<rfloor>
     \<and> length passed \<le> qlen (lanes isec (fst (active phase))) + qlen (lanes isec (snd (active phase)))"
proof -
  define d1 where "d1 = fst (active phase)"
  define d2 where "d2 = snd (active phase)"
  have ne: "d1 \<noteq> d2" by (simp add: d1_def d2_def active_def)
  have dirs: "(if phase = ''NS'' then [N, S] else [E, W]) = [d1, d2]"
    by (simp add: d1_def d2_def active_def)
  let ?n = "nat (py_int (service_rate isec * dt))"
  from serve_loop_bound [OF ne, of ?n t "lanes isec" "[]"] obtain p ls' where
    r: "serve_loop ?n [d1, d2] t (lanes isec) [] = Inr (p, ls')"
    and b: "length p \<le> ?n"
    and c: "length p + qlen (ls' d1) + qlen (ls' d2) = qlen (lanes isec d1) + qlen (lanes isec d2)"
    by auto
  have "serve isec phase dt t = Inr (p, isec\<lparr>lanes := ls'\<rparr>)"
    using r dirs by (simp add: serve_def)
  moreover have "int (length p) \<le> \<lfloor>service_rate isec * dt\<rfloor>"
    using b nat_py_int_floor [OF assms] by linarith
  moreover have "length p \<le> qlen (lanes isec d1) + qlen (lanes isec d2)"
    using c by linarith
  ultimately show ?thesis unfolding d1_def d2_def by blast
qed

theorem serve_capacity_bound_witness:
  "(0::real) \<le> service_rate demo_isec * 2
   \<and> (\<exists>passed isec'. serve demo_isec ''NS'' 2 5 = Inr (passed, isec')
        \<and> int (length passed) \<le> 2 \<and> length passed \<le> 3)"
proof -
  have h: "(0::real) \<le> service_rate demo_isec * 2" by (simp add: demo_isec_def)
  have f: "\<lfloor>service_rate demo_isec * 2\<rfloor> = 2" by (simp add: demo_isec_def)
  have q: "qlen (lanes demo_isec (fst (active ''NS''))) +
      qlen (lanes demo_isec (snd (active ''NS''))) = 3"
    by (simp add: demo_isec_def active_def qlen_def Lane_def)
  from serve_capacity_bound [OF h, of "''NS''" 5] obtain p i where
    "serve demo_isec ''NS'' 2 5 = Inr (p, i)"
    "int (length p) \<le> \<lfloor>service_rate demo_isec * 2\<rfloor>"
    "length p \<le> qlen (lanes demo_isec (fst (active ''NS''))) +
       qlen (lanes demo_isec (snd (active ''NS'')))"
    by blast
  with h f q show ?thesis by auto
qed

text \<open>
  Claim C10. \<^verbatim>\<open>serve\<close> returns and leaves the two inactive lanes as they were: the east and
  west lanes when the phase is \<^verbatim>\<open>NS\<close>, the north and south lanes for any other phase (the code
  treats every phase other than \<^verbatim>\<open>NS\<close> as \<^verbatim>\<open>EW\<close>). The service rate is unchanged too.
\<close>

theorem serve_inactive_unchanged:
  "\<exists>passed isec'. serve isec phase dt t = Inr (passed, isec')
     \<and> (phase = ''NS'' \<longrightarrow> lanes isec' E = lanes isec E \<and> lanes isec' W = lanes isec W)
     \<and> (phase \<noteq> ''NS'' \<longrightarrow> lanes isec' N = lanes isec N \<and> lanes isec' S = lanes isec S)
     \<and> service_rate isec' = service_rate isec"
proof -
  let ?n = "nat (py_int (service_rate isec * dt))"
  let ?dirs = "if phase = ''NS'' then [N, S] else [E, W]"
  have "\<exists>p ls'. serve_loop ?n ?dirs t (lanes isec) [] = Inr (p, ls')"
    using serve_loop_bound [of N S ?n t "lanes isec" "[]"]
      serve_loop_bound [of E W ?n t "lanes isec" "[]"] by auto
  then obtain p ls' where r: "serve_loop ?n ?dirs t (lanes isec) [] = Inr (p, ls')" by blast
  then have s: "serve isec phase dt t = Inr (p, isec\<lparr>lanes := ls'\<rparr>)"
    by (simp add: serve_def)
  have "phase = ''NS'' \<longrightarrow> ls' E = lanes isec E \<and> ls' W = lanes isec W"
    using r serve_loop_frame [of ?n "[N, S]" t "lanes isec" "[]" p ls'] by auto
  moreover have "phase \<noteq> ''NS'' \<longrightarrow> ls' N = lanes isec N \<and> ls' S = lanes isec S"
    using r serve_loop_frame [of ?n "[E, W]" t "lanes isec" "[]" p ls'] by auto
  ultimately show ?thesis using s by simp
qed

theorem serve_inactive_unchanged_witness:
  "\<exists>passed isec'. serve demo_isec ''NS'' 2 5 = Inr (passed, isec')
     \<and> lanes isec' E = \<lparr>queue = [Vehicle 1]\<rparr> \<and> lanes isec' W = Lane"
proof -
  have e: "lanes demo_isec E = \<lparr>queue = [Vehicle 1]\<rparr>" "lanes demo_isec W = Lane"
    by (simp_all add: demo_isec_def)
  from serve_inactive_unchanged [of demo_isec "''NS''" 2 5] obtain p i where
    "serve demo_isec ''NS'' 2 5 = Inr (p, i)"
    "lanes i E = lanes demo_isec E" "lanes i W = lanes demo_isec W"
    by auto
  with e show ?thesis by auto
qed

lemma serve_loop_spec:
  "serve_loop n [d1, d2] t ls (map Some out) =
   Inr (map_prod (map Some) id (spec_serve_loop n d1 d2 t ls out))"
proof (induction n arbitrary: ls out)
  case 0
  then show ?case by simp
next
  case (Suc n)
  have mk: "py_max_key (\<lambda>d. qlen (ls d)) [d1, d2] = Inr (spec_pick d1 d2 ls)"
    by (simp add: spec_pick_def qlen_def)
  show ?case
  proof (cases "queue (ls (spec_pick d1 d2 ls))")
    case Nil
    with mk show ?thesis by (simp add: qlen_def)
  next
    case (Cons v vs)
    then have rv: "remove_vehicle (ls (spec_pick d1 d2 ls)) t =
        (Some (v\<lparr>depart_time := Some t\<rparr>), (ls (spec_pick d1 d2 ls))\<lparr>queue := vs\<rparr>)"
      by (simp add: remove_vehicle_def)
    let ?ls = "ls(spec_pick d1 d2 ls := (ls (spec_pick d1 d2 ls))\<lparr>queue := vs\<rparr>)"
    let ?out = "out @ [v\<lparr>depart_time := Some t\<rparr>]"
    have lhs: "serve_loop (Suc n) [d1, d2] t ls (map Some out) =
        serve_loop n [d1, d2] t ?ls (map Some ?out)"
      using mk Cons rv by (simp add: qlen_def)
    have rhs: "spec_serve_loop (Suc n) d1 d2 t ls out = spec_serve_loop n d1 d2 t ?ls ?out"
      using Cons by (simp add: Let_def)
    show ?thesis unfolding lhs rhs by (rule Suc.IH)
  qed
qed

text \<open>
  Claim C5. \<^verbatim>\<open>serve\<close> computes exactly the longest-queue-first rule of the specification
  (\<open>spec_serve_loop\<close>: up to capacity times, take the head of the active lane with the strictly
  greater queue length, the first direction on a tie, and stop when the chosen lane is empty).
  In the scenario with five vehicles in the north lane and one in the south lane, phase
  \<^verbatim>\<open>NS\<close>, service rate 1 and duration 3, the three vehicles served are the first three of the
  north lane; the south lane is untouched.
\<close>

theorem serve_longest_queue_first:
  "serve isec phase dt t =
     (case spec_serve_loop (nat (py_int (service_rate isec * dt)))
             (fst (active phase)) (snd (active phase)) t (lanes isec) [] of
        (out, ls) \<Rightarrow> Inr (map Some out, isec\<lparr>lanes := ls\<rparr>))
   \<and> (\<exists>isec'.
        serve \<lparr>lanes = ls0(N := \<lparr>queue = [n1, n2, n3, n4, n5]\<rparr>, S := \<lparr>queue = [s1]\<rparr>),
               service_rate = 1\<rparr> ''NS'' 3 t =
          Inr ([Some (n1\<lparr>depart_time := Some t\<rparr>), Some (n2\<lparr>depart_time := Some t\<rparr>),
                Some (n3\<lparr>depart_time := Some t\<rparr>)], isec')
        \<and> lanes isec' N = \<lparr>queue = [n4, n5]\<rparr> \<and> lanes isec' S = \<lparr>queue = [s1]\<rparr>
        \<and> lanes isec' E = ls0 E \<and> lanes isec' W = ls0 W)"
proof -
  have dirs: "(if phase = ''NS'' then [N, S] else [E, W]) = [fst (active phase), snd (active phase)]"
    by (simp add: active_def)
  have a: "serve isec phase dt t =
     (case spec_serve_loop (nat (py_int (service_rate isec * dt)))
             (fst (active phase)) (snd (active phase)) t (lanes isec) [] of
        (out, ls) \<Rightarrow> Inr (map Some out, isec\<lparr>lanes := ls\<rparr>))"
    using serve_loop_spec [of "nat (py_int (service_rate isec * dt))" "fst (active phase)"
        "snd (active phase)" t "lanes isec" "[]"]
    by (simp add: serve_def dirs split: prod.splits)
  have three: "nat (py_int 3) = Suc (Suc (Suc 0))"
    by (simp add: py_int_def)
  have b: "\<exists>isec'.
        serve \<lparr>lanes = ls0(N := \<lparr>queue = [n1, n2, n3, n4, n5]\<rparr>, S := \<lparr>queue = [s1]\<rparr>),
               service_rate = 1\<rparr> ''NS'' 3 t =
          Inr ([Some (n1\<lparr>depart_time := Some t\<rparr>), Some (n2\<lparr>depart_time := Some t\<rparr>),
                Some (n3\<lparr>depart_time := Some t\<rparr>)], isec')
        \<and> lanes isec' N = \<lparr>queue = [n4, n5]\<rparr> \<and> lanes isec' S = \<lparr>queue = [s1]\<rparr>
        \<and> lanes isec' E = ls0 E \<and> lanes isec' W = ls0 W"
    by (simp add: serve_def three qlen_def remove_vehicle_def)
  from a b show ?thesis by blast
qed

subsection \<open>QLearning: reading, choosing and updating\<close>

lemma q_value_dd_get: "q_value (snd (dd_get tab k)) k' = q_value tab k'"
  by (auto simp: q_value_def dd_get_def split: option.splits)

lemma fst_dd_get: "fst (dd_get tab k) = q_value tab k"
  by (simp add: q_value_def)

lemma dd_gets_values:
  "fst (dd_gets tab ks) = map (q_value tab) ks
   \<and> (\<forall>k. q_value (snd (dd_gets tab ks)) k = q_value tab k)"
proof (induction ks arbitrary: tab)
  case Nil
  show ?case by simp
next
  case (Cons k ks)
  obtain v tab' where g: "dd_get tab k = (v, tab')" by (cases "dd_get tab k")
  then have v: "v = q_value tab k" and t: "\<And>k'. q_value tab' k' = q_value tab k'"
    using fst_dd_get [of tab k] q_value_dd_get [of tab k] by auto
  obtain vs tab'' where gs: "dd_gets tab' ks = (vs, tab'')" by (cases "dd_gets tab' ks")
  from Cons.IH [of tab'] gs t
  have "vs = map (q_value tab) ks" "\<forall>k. q_value tab'' k = q_value tab k"
    by (auto cong: map_cong)
  with g gs v show ?case by simp
qed



lemma q_value_upd:
  "q_value (tab(k \<mapsto> v)) k' = (if k' = k then v else q_value tab k')"
  by (simp add: q_value_def dd_get_def split: option.splits)

lemma foldl_max_key_first:
  "\<exists>pre post. x # xs = pre @ foldl (\<lambda>m y. if key m < key y then y else m) x xs # post
     \<and> (\<forall>y\<in>set pre. key y < key (foldl (\<lambda>m y. if key m < key y then y else m) x xs))
     \<and> (\<forall>y\<in>set post. key y \<le> key (foldl (\<lambda>m y. if key m < key y then y else m) x xs))"
  for key :: "'a \<Rightarrow> 'k::linorder"
proof (induction xs rule: rev_induct)
  case Nil
  show ?case by (intro exI [of _ "[]"]) simp
next
  case (snoc z zs)
  let ?f = "\<lambda>m y. if key m < key y then y else m"
  let ?m = "foldl ?f x zs"
  from snoc obtain pre post where d: "x # zs = pre @ ?m # post"
    and lo: "\<forall>y\<in>set pre. key y < key ?m" and hi: "\<forall>y\<in>set post. key y \<le> key ?m"
    by blast
  show ?case
  proof (cases "key ?m < key z")
    case True
    then have m: "foldl ?f x (zs @ [z]) = z" by simp
    have "x # zs @ [z] = (x # zs) @ z # []" by simp
    moreover have "\<forall>y\<in>set (x # zs). key y < key z"
    proof
      fix y assume "y \<in> set (x # zs)"
      with d have "y \<in> set pre \<or> y = ?m \<or> y \<in> set post" by auto
      then show "key y < key z"
      proof (elim disjE)
        assume "y \<in> set pre"
        with lo have "key y < key ?m" by blast
        then show ?thesis using True by order
      next
        assume "y = ?m"
        with True show ?thesis by simp
      next
        assume "y \<in> set post"
        with hi have "key y \<le> key ?m" by blast
        then show ?thesis using True by order
      qed
    qed
    ultimately show ?thesis unfolding m by (metis empty_iff list.set(1))
  next
    case False
    then have m: "foldl ?f x (zs @ [z]) = ?m" by simp
    have "x # zs @ [z] = pre @ ?m # (post @ [z])" using d by simp
    moreover have "\<forall>y\<in>set (post @ [z]). key y \<le> key ?m" using hi False by auto
    ultimately show ?thesis unfolding m using lo by blast
  qed
qed

lemma py_max_key_first:
  assumes "xs \<noteq> []"
  shows "\<exists>m pre post. py_max_key key xs = Inr m \<and> xs = pre @ m # post
     \<and> (\<forall>y\<in>set pre. key y < key m) \<and> (\<forall>y\<in>set post. key y \<le> key m)"
proof -
  from assms obtain x ys where xs: "xs = x # ys" by (cases xs) auto
  from foldl_max_key_first [of x ys key] show ?thesis unfolding xs by auto
qed

lemma py_max_key_Max:
  assumes "xs \<noteq> []"
  shows "py_max_key (\<lambda>x. x) xs = Inr (Max (set xs))"
proof -
  from py_max_key_first [OF assms, of "\<lambda>x. x"] obtain m pre post where
    r: "py_max_key (\<lambda>x. x) xs = Inr m" and d: "xs = pre @ m # post"
    and lo: "\<forall>y\<in>set pre. y < m" and hi: "\<forall>y\<in>set post. y \<le> m" by blast
  have "m \<in> set xs" using d by simp
  moreover have "\<forall>y\<in>set xs. y \<le> m" using d lo hi by auto
  ultimately have "Max (set xs) = m" by (intro Max_eqI) auto
  with r show ?thesis by simp
qed


text \<open>
  Claim C3. With a non-empty action list, \<^verbatim>\<open>update(s, a, r, ns)\<close> returns, and afterwards the
  value read at \<open>(s, a)\<close> is \<open>Q(s,a) + \<alpha> * (r + \<gamma> * max\<^sub>a\<^sub>' Q(ns,a') - Q(s,a))\<close>, computed
  from the values read before the call (a missing entry reads as 0), while the value read at
  every other pair of state and action index is what it was. The hyperparameters and the
  action list are unchanged.
\<close>

theorem update_td_rule:
  assumes "actions ctrl \<noteq> []"
  shows "\<exists>ctrl'. update ctrl s a r ns = Inr ctrl'
     \<and> q_value (q ctrl') (s, a) =
         q_value (q ctrl) (s, a) + alpha ctrl *
           (r + gamma ctrl * Max ((\<lambda>a'. q_value (q ctrl) (ns, a')) ` {..<length (actions ctrl)})
              - q_value (q ctrl) (s, a))
     \<and> (\<forall>k. k \<noteq> (s, a) \<longrightarrow> q_value (q ctrl') k = q_value (q ctrl) k)
     \<and> actions ctrl' = actions ctrl \<and> alpha ctrl' = alpha ctrl \<and> gamma ctrl' = gamma ctrl
     \<and> epsilon ctrl' = epsilon ctrl"
proof -
  let ?n = "length (actions ctrl)"
  let ?ks = "map (\<lambda>na. (ns, na)) [0..<?n]"
  obtain cur tab1 where g: "dd_get (q ctrl) (s, a) = (cur, tab1)" by (cases "dd_get (q ctrl) (s, a)")
  then have cur: "cur = q_value (q ctrl) (s, a)"
    and t1: "\<And>k. q_value tab1 k = q_value (q ctrl) k"
    using fst_dd_get [of "q ctrl" "(s, a)"] q_value_dd_get [of "q ctrl" "(s, a)"] by auto
  obtain vals tab2 where gs: "dd_gets tab1 ?ks = (vals, tab2)" by (cases "dd_gets tab1 ?ks")
  with dd_gets_values [of tab1 ?ks] t1
  have vals: "vals = map (\<lambda>na. q_value (q ctrl) (ns, na)) [0..<?n]"
    and t2: "\<And>k. q_value tab2 k = q_value (q ctrl) k"
    by (auto simp: comp_def)
  have ne: "vals \<noteq> []" using assms vals by simp
  have sv: "set vals = (\<lambda>a'. q_value (q ctrl) (ns, a')) ` {..<?n}"
    unfolding vals by (auto simp: lessThan_atLeast0)
  let ?best = "Max ((\<lambda>a'. q_value (q ctrl) (ns, a')) ` {..<?n})"
  have mx: "py_max_key (\<lambda>x. x) vals = Inr ?best"
    using py_max_key_Max [OF ne] sv by simp
  let ?c = "ctrl\<lparr>q := tab2((s, a) \<mapsto> cur + alpha ctrl * (r + gamma ctrl * ?best - cur))\<rparr>"
  have "update ctrl s a r ns = Inr ?c"
    by (simp add: update_def g gs mx)
  moreover have "q_value (q ?c) (s, a) = cur + alpha ctrl * (r + gamma ctrl * ?best - cur)"
    by (simp add: q_value_upd)
  moreover have "\<forall>k. k \<noteq> (s, a) \<longrightarrow> q_value (q ?c) k = q_value (q ctrl) k"
    by (simp add: q_value_upd t2)
  moreover have "actions ?c = actions ctrl" "alpha ?c = alpha ctrl" "gamma ?c = gamma ctrl"
    "epsilon ?c = epsilon ctrl" by simp_all
  ultimately show ?thesis unfolding cur by blast
qed


text \<open>One update of a fresh table: reward 10 and learning rate 1/10 give the value 1.\<close>

theorem update_td_rule_witness:
  "actions demo_ctrl \<noteq> []
   \<and> (\<exists>ctrl'. update demo_ctrl (0, 0, 0) 1 10 (1, 0, 0) = Inr ctrl'
        \<and> q_value (q ctrl') ((0, 0, 0), 1) = 1
        \<and> q_value (q ctrl') ((0, 0, 0), 0) = 0)"
proof -
  have h: "actions demo_ctrl \<noteq> []" by (simp add: demo_ctrl_def QLearning_def)
  have z: "\<And>k. q_value (q demo_ctrl) k = 0"
    by (simp add: demo_ctrl_def QLearning_def q_value_def dd_get_def)
  have al: "alpha demo_ctrl = 1 / 10" by (simp add: demo_ctrl_def QLearning_def)
  from update_td_rule [OF h, of "(0, 0, 0)" 1 10 "(1, 0, 0)"] obtain c where
    u: "update demo_ctrl (0, 0, 0) 1 10 (1, 0, 0) = Inr c"
    and v: "q_value (q c) ((0, 0, 0), 1) =
         q_value (q demo_ctrl) ((0, 0, 0), 1) + alpha demo_ctrl *
           (10 + gamma demo_ctrl *
              Max ((\<lambda>a'. q_value (q demo_ctrl) ((1, 0, 0), a')) ` {..<length (actions demo_ctrl)})
              - q_value (q demo_ctrl) ((0, 0, 0), 1))"
    and f: "\<forall>k. k \<noteq> ((0, 0, 0), 1) \<longrightarrow> q_value (q c) k = q_value (q demo_ctrl) k"
    by blast
  have "{..<length (actions demo_ctrl)} \<noteq> {}" using h by auto
  then have "q_value (q c) ((0, 0, 0), 1) = 1" using v by (simp add: z al)
  moreover have "q_value (q c) ((0, 0, 0), 0) = 0" using f z by simp
  ultimately show ?thesis using h u by blast
qed




subsection \<open>Simulation: every decision step returns\<close>








lemma waits_Inr:
  "waits ds = Inr ws \<Longrightarrow>
   \<exists>vs. ds = map Some vs \<and> (\<forall>v\<in>set vs. depart_time v \<noteq> None)
     \<and> ws = map (\<lambda>v. the (depart_time v) - arrival_time v) vs"
proof (induction ds arbitrary: ws rule: waits.induct)
  case 1
  then show ?case by simp
next
  case (2 vs)
  then show ?case by simp
next
  case (3 v ds)
  from "3.prems" obtain d ws' where d: "depart_time v = Some d" and w: "waits ds = Inr ws'"
    and ws: "ws = (d - arrival_time v) # ws'"
    by (auto split: option.splits sum.splits)
  from "3.IH" [OF d w] obtain vs where "ds = map Some vs" "\<forall>v\<in>set vs. depart_time v \<noteq> None"
    "ws' = map (\<lambda>v. the (depart_time v) - arrival_time v) vs" by blast
  with d ws show ?case by (intro exI [of _ "v # vs"]) simp
qed







subsection \<open>Simulation: a concrete run\<close>


lemma poisson_quiet: "poisson demo_rng 1 0 1 g = Some (0, Suc g)"
  by (subst poisson.simps) (simp add: demo_rng_def)

lemma generate_quiet: "generate demo_rng (sim_gen quiet_sim) 1 tt g = Some ([(N, 0), (E, 0)], Suc (Suc g))"
  by (simp add: generate_def quiet_sim_def poisson_quiet)

lemma arrive_quiet_step:
  "tt < tend \<Longrightarrow> arrive demo_rng (+) (sim_gen quiet_sim) 1 tend tt isec g =
     arrive demo_rng (+) (sim_gen quiet_sim) 1 tend (tt + 1) isec (Suc (Suc g))"
  by (subst arrive.simps) (simp add: generate_quiet)

lemma arrive_quiet_stop:
  "\<not> tt < tend \<Longrightarrow> arrive demo_rng (+) (sim_gen quiet_sim) 1 tend tt isec g = Some (isec, g)"
  by (subst arrive.simps) simp

lemma arrive_quiet: "arrive demo_rng (+) (sim_gen quiet_sim) 1 5 0 isec 1 = Some (isec, 11)"
  by (simp add: arrive_quiet_step arrive_quiet_stop eval_nat_numeral)

lemma read_demo: "read Sensor demo_isec = (1, 1, 0)"
  by (simp add: read_def Sensor_def default_bins_def demo_isec_def queue_lengths_def qlen_def
      Lane_def disc_def Let_def)

lemma choose_greedy: "\<exists>c. choose_action demo_rng greedy_ctrl s 0 = Inr (0, c, 1) \<and> actions c = [(''NS'', 5)]"
  by (simp add: choose_action_def demo_rng_def greedy_ctrl_def QLearning_def)

lemma serve_demo: "\<exists>isec'. serve demo_isec ''NS'' 5 5 =
    Inr ([Some \<lparr>arrival_time = 0, depart_time = Some 5\<rparr>,
          Some \<lparr>arrival_time = 1, depart_time = Some 5\<rparr>,
          Some \<lparr>arrival_time = 2, depart_time = Some 5\<rparr>], isec')"
proof -
  have five: "nat (py_int 5) = Suc (Suc (Suc (Suc (Suc 0))))" by (simp add: py_int_def)
  show ?thesis
    by (simp add: serve_def demo_isec_def five qlen_def remove_vehicle_def Lane_def Vehicle_def)
qed

lemma step_quiet:
  "\<exists>st'. step demo_rng (+) False
       \<lparr>rs_t = 0, rs_departed = [], rs_total_r = 0, rs_sim = quiet_sim, rs_ctrl = greedy_ctrl,
        rs_rng = 0\<rparr> = Some (Inr st')
     \<and> rs_t st' = 5
     \<and> rs_departed st' =
         [Some \<lparr>arrival_time = 0, depart_time = Some 5\<rparr>,
          Some \<lparr>arrival_time = 1, depart_time = Some 5\<rparr>,
          Some \<lparr>arrival_time = 2, depart_time = Some 5\<rparr>]"
proof -
  let ?s = "read (sim_sensor quiet_sim) (sim_inter quiet_sim)"
  from choose_greedy [of ?s] obtain c where
    ch: "choose_action demo_rng greedy_ctrl ?s 0 = Inr (0, c, 1)" and ac: "actions c = [(''NS'', 5)]"
    by blast
  have ix: "py_index (actions c) 0 = Inr (''NS'', 5)" by (simp add: py_index_def ac)
  have ar: "arrive demo_rng (+) (sim_gen quiet_sim) (sim_dt quiet_sim) 5 0 (sim_inter quiet_sim) (Suc 0)
      = Some (demo_isec, 11)"
    using arrive_quiet [of demo_isec] by (simp add: quiet_sim_def)
  from serve_demo obtain isec' where
    sv: "serve demo_isec ''NS'' 5 5 =
      Inr ([Some \<lparr>arrival_time = 0, depart_time = Some 5\<rparr>,
            Some \<lparr>arrival_time = 1, depart_time = Some 5\<rparr>,
            Some \<lparr>arrival_time = 2, depart_time = Some 5\<rparr>], isec')"
    by auto
  show ?thesis
    unfolding step_def Let_def by (simp add: ch ix ar sv)
qed

lemma run_loop_quiet:
  "\<exists>st'. run_loop demo_rng (+) 5 False
       \<lparr>rs_t = 0, rs_departed = [], rs_total_r = 0, rs_sim = quiet_sim, rs_ctrl = greedy_ctrl,
        rs_rng = 0\<rparr> = Some (Inr st')
     \<and> rs_departed st' =
         [Some \<lparr>arrival_time = 0, depart_time = Some 5\<rparr>,
          Some \<lparr>arrival_time = 1, depart_time = Some 5\<rparr>,
          Some \<lparr>arrival_time = 2, depart_time = Some 5\<rparr>]"
proof -
  from step_quiet obtain st1 where
    s: "step demo_rng (+) False
       \<lparr>rs_t = 0, rs_departed = [], rs_total_r = 0, rs_sim = quiet_sim, rs_ctrl = greedy_ctrl,
        rs_rng = 0\<rparr> = Some (Inr st1)"
    and t: "rs_t st1 = 5"
    and d: "rs_departed st1 =
         [Some \<lparr>arrival_time = 0, depart_time = Some 5\<rparr>,
          Some \<lparr>arrival_time = 1, depart_time = Some 5\<rparr>,
          Some \<lparr>arrival_time = 2, depart_time = Some 5\<rparr>]"
    by blast
  have "run_loop demo_rng (+) 5 False st1 = Some (Inr st1)"
    by (subst run_loop.simps) (simp add: t)
  then have "run_loop demo_rng (+) 5 False
       \<lparr>rs_t = 0, rs_departed = [], rs_total_r = 0, rs_sim = quiet_sim, rs_ctrl = greedy_ctrl,
        rs_rng = 0\<rparr> = Some (Inr st1)"
    by (subst run_loop.simps) (simp add: s)
  with d show ?thesis by blast
qed

lemma waits_no_zerodiv: "waits ds = Inl e \<Longrightarrow> e \<noteq> ZeroDivisionError"
  by (induction ds arbitrary: e rule: waits.induct) (auto split: option.splits sum.splits)

lemma avg_wait_of_Inr:
  assumes "avg_wait_of ds = Inr aw"
  shows "\<exists>vs. ds = map Some vs \<and> (\<forall>v\<in>set vs. depart_time v \<noteq> None)
     \<and> aw = (if vs = [] then 0
             else (\<Sum>v\<leftarrow>vs. the (depart_time v) - arrival_time v) / real (length vs))"
proof (cases "ds = []")
  case True
  with assms show ?thesis by (simp add: avg_wait_of_def)
next
  case False
  with assms obtain ws where w: "waits ds = Inr ws"
    and a: "py_truediv (sum_list ws) (real (length ds)) = Inr aw"
    by (auto simp: avg_wait_of_def split: sum.splits)
  from waits_Inr [OF w] obtain vs where vs: "ds = map Some vs"
    "\<forall>v\<in>set vs. depart_time v \<noteq> None"
    "ws = map (\<lambda>v. the (depart_time v) - arrival_time v) vs" by blast
  from a have "aw = sum_list ws / real (length ds)"
    by (simp add: py_truediv_def split: if_splits)
  with vs False show ?thesis by (intro exI [of _ vs]) auto
qed

text \<open>
  Claim C7. The average-wait expression of \<^verbatim>\<open>run\<close> yields 0 on an empty list of departed
  vehicles and never raises \<^verbatim>\<open>ZeroDivisionError\<close>. Whenever \<^verbatim>\<open>run\<close> returns a result record,
  its \<^verbatim>\<open>departed\<close> field is the number of vehicles departed during the run, every one of them
  carries a departure time, and \<^verbatim>\<open>avg_wait\<close> is 0 when there is none and otherwise the
  arithmetic mean of departure time minus arrival time over them.
\<close>

theorem run_avg_wait:
  "avg_wait_of [] = Inr 0
   \<and> avg_wait_of ds \<noteq> Inl ZeroDivisionError
   \<and> (run R tadd sim ctrl max_t train g = Some (Inr (res, st)) \<longrightarrow>
        departed res = length (rs_departed st)
        \<and> (\<exists>vs. rs_departed st = map Some vs \<and> (\<forall>v\<in>set vs. depart_time v \<noteq> None)
             \<and> avg_wait res =
                 (if vs = [] then 0
                  else (\<Sum>v\<leftarrow>vs. the (depart_time v) - arrival_time v) / real (length vs))))"
proof -
  have a: "avg_wait_of [] = Inr 0" by (simp add: avg_wait_of_def)
  have b: "avg_wait_of ds \<noteq> Inl ZeroDivisionError"
  proof (cases "ds = []")
    case True
    then show ?thesis by (simp add: avg_wait_of_def)
  next
    case False
    then have "real (length ds) \<noteq> 0" by simp
    then show ?thesis
      by (cases "waits ds") (auto simp: avg_wait_of_def py_truediv_def dest: waits_no_zerodiv)
  qed
  have c: "run R tadd sim ctrl max_t train g = Some (Inr (res, st)) \<longrightarrow>
        departed res = length (rs_departed st)
        \<and> (\<exists>vs. rs_departed st = map Some vs \<and> (\<forall>v\<in>set vs. depart_time v \<noteq> None)
             \<and> avg_wait res =
                 (if vs = [] then 0
                  else (\<Sum>v\<leftarrow>vs. the (depart_time v) - arrival_time v) / real (length vs)))"
  proof
    assume r: "run R tadd sim ctrl max_t train g = Some (Inr (res, st))"
    then have aw: "avg_wait_of (rs_departed st) = Inr (avg_wait res)"
      and dp: "departed res = length (rs_departed st)"
      by (auto simp: run_def split: option.splits sum.splits)
    from avg_wait_of_Inr [OF aw] dp show "departed res = length (rs_departed st)
        \<and> (\<exists>vs. rs_departed st = map Some vs \<and> (\<forall>v\<in>set vs. depart_time v \<noteq> None)
             \<and> avg_wait res =
                 (if vs = [] then 0
                  else (\<Sum>v\<leftarrow>vs. the (depart_time v) - arrival_time v) / real (length vs)))"
      by blast
  qed
  from a b c show ?thesis by blast
qed

subsection \<open>Simulation: the result record\<close>

text \<open>
  A run of one decision step on \<open>demo_isec\<close> with no arrivals: the three north vehicles, which
  arrived at 0, 1 and 2, leave at time 5, so the average wait is 4.
\<close>

theorem run_avg_wait_witness:
  "\<exists>res st. run demo_rng (+) quiet_sim greedy_ctrl 5 False 0 = Some (Inr (res, st))
     \<and> departed res = 3 \<and> avg_wait res = 4"
proof -
  from run_loop_quiet obtain st1 where
    l: "run_loop demo_rng (+) 5 False
       \<lparr>rs_t = 0, rs_departed = [], rs_total_r = 0, rs_sim = quiet_sim, rs_ctrl = greedy_ctrl,
        rs_rng = 0\<rparr> = Some (Inr st1)"
    and d: "rs_departed st1 =
         [Some \<lparr>arrival_time = 0, depart_time = Some 5\<rparr>,
          Some \<lparr>arrival_time = 1, depart_time = Some 5\<rparr>,
          Some \<lparr>arrival_time = 2, depart_time = Some 5\<rparr>]"
    by blast
  have "\<exists>aw. avg_wait_of (rs_departed st1) = Inr aw"
    unfolding d by (simp add: avg_wait_of_def py_truediv_def)
  then obtain res where r: "run demo_rng (+) quiet_sim greedy_ctrl 5 False 0 = Some (Inr (res, st1))"
    using l by (auto simp: run_def)
  from run_avg_wait [of "[]" demo_rng "(+)" quiet_sim greedy_ctrl 5 False 0 res st1] r
  obtain vs where n: "departed res = length (rs_departed st1)"
    and vs: "rs_departed st1 = map Some vs"
    and aw: "avg_wait res =
        (if vs = [] then 0
         else (\<Sum>v\<leftarrow>vs. the (depart_time v) - arrival_time v) / real (length vs))"
    by blast
  from vs d have "map Some vs = map Some
      [\<lparr>arrival_time = 0, depart_time = Some 5\<rparr>, \<lparr>arrival_time = 1, depart_time = Some 5\<rparr>,
       \<lparr>arrival_time = 2, depart_time = Some 5\<rparr>]" by simp
  then have "vs = [\<lparr>arrival_time = 0, depart_time = Some 5\<rparr>,
      \<lparr>arrival_time = 1, depart_time = Some 5\<rparr>, \<lparr>arrival_time = 2, depart_time = Some 5\<rparr>]"
    by (simp only: inj_map_eq_map [OF inj_Some])
  with aw have "avg_wait res = 4" by simp
  moreover from n d have "departed res = 3" by simp
  ultimately show ?thesis using r by blast
qed

subsection \<open>Simulation: two steps in float arithmetic\<close>

















subsection \<open>Simulation: termination and the final time\<close>






end
